theory Spec2Isabelle
  imports Complex_Main
begin

section \<open>The rate limiter of \<^verbatim>\<open>Rate Limiter/main.py\<close>\<close>

text \<open>
  The three strategies keep one dictionary each, from the request key to that key's private
  state. Every \<^verbatim>\<open>allow\<close> reads the clock once (\<^verbatim>\<open>time.time()\<close>); the reading is an
  explicit argument \<open>now\<close> of the model. Python's floats are modelled as exact reals, its
  unbounded integers as \<open>int\<close>, a dictionary as a map, the deque of timestamps as a list
  (oldest first). An exception is a value \<open>Inl e\<close> of the result.
\<close>

type_synonym key = string

datatype error = ZeroDivisionError

subsection \<open>Fixed window counter\<close>

record fixed_window_counter =
  fw_window_size :: int
  fw_max_requests :: int
  store :: "key \<rightharpoonup> int \<times> int"

text \<open>\<^verbatim>\<open>__init__\<close> stores its arguments and an empty dictionary; it raises nothing.\<close>

definition fixed_window_counter_init :: "int \<Rightarrow> int \<Rightarrow> error + fixed_window_counter" where
  "fixed_window_counter_init window_size max_requests =
     Inr \<lparr>fw_window_size = window_size, fw_max_requests = max_requests, store = Map.empty\<rparr>"

text \<open>\<^verbatim>\<open>int(x)\<close> on a float truncates toward zero.\<close>

definition py_int :: "real \<Rightarrow> int" where
  "py_int x = (if 0 \<le> x then \<lfloor>x\<rfloor> else \<lceil>x\<rceil>)"

text \<open>
  Lines 28 and 29: \<^verbatim>\<open>current_time = int(time.time())\<close> and
  \<^verbatim>\<open>window_start = current_time - (current_time % self.window_size)\<close>. Python's \<^verbatim>\<open>%\<close> on
  integers takes the sign of the divisor, as \<open>mod\<close> on \<open>int\<close> does; with a zero divisor it
  raises, which \<open>fw_allow\<close> checks before it uses this value.
\<close>

definition fw_window_start :: "fixed_window_counter \<Rightarrow> real \<Rightarrow> int" where
  "fw_window_start s now =
     (let current_time = py_int now
      in current_time - current_time mod fw_window_size s)"

definition fw_allow ::
  "fixed_window_counter \<Rightarrow> key \<Rightarrow> real \<Rightarrow> error + bool \<times> fixed_window_counter" where
  "fw_allow s k now =
     (if fw_window_size s = 0 then Inl ZeroDivisionError
      else
        let window_start = fw_window_start s now;
            (count, last_window) =
               (case store s k of None \<Rightarrow> (0, window_start) | Some v \<Rightarrow> v)
        in if last_window \<noteq> window_start
           then Inr (True, s\<lparr>store := (store s)(k \<mapsto> (1, window_start))\<rparr>)
           else if count < fw_max_requests s
           then Inr (True, s\<lparr>store := (store s)(k \<mapsto> (count + 1, window_start))\<rparr>)
           else Inr (False, s))"

subsection \<open>Sliding window log\<close>

record sliding_window_log =
  sl_window_size :: int
  sl_max_requests :: int
  logs :: "key \<rightharpoonup> real list"

definition sliding_window_log_init :: "int \<Rightarrow> int \<Rightarrow> error + sliding_window_log" where
  "sliding_window_log_init window_size max_requests =
     Inr \<lparr>sl_window_size = window_size, sl_max_requests = max_requests, logs = Map.empty\<rparr>"

text \<open>The loop \<^verbatim>\<open>while log and log[0] < window_start: log.popleft()\<close>.\<close>

fun popleft_while :: "real \<Rightarrow> real list \<Rightarrow> real list" where
  "popleft_while window_start [] = []"
| "popleft_while window_start (t # ts) =
     (if t < window_start then popleft_while window_start ts else t # ts)"

text \<open>
  A key that is not in \<^verbatim>\<open>self.logs\<close> gets an empty deque first; the deque is then pruned in
  place, so the pruned log is stored on the denying path too.
\<close>

definition sl_allow :: "sliding_window_log \<Rightarrow> key \<Rightarrow> real \<Rightarrow> bool \<times> sliding_window_log" where
  "sl_allow s k now =
     (let window_start = now - real_of_int (sl_window_size s);
          klog = popleft_while window_start (case logs s k of None \<Rightarrow> [] | Some l \<Rightarrow> l)
      in if int (length klog) < sl_max_requests s
         then (True, s\<lparr>logs := (logs s)(k \<mapsto> klog @ [now])\<rparr>)
         else (False, s\<lparr>logs := (logs s)(k \<mapsto> klog)\<rparr>))"

subsection \<open>Token bucket\<close>

record token_bucket =
  refill_rate :: real
  capacity :: int
  buckets :: "key \<rightharpoonup> real \<times> real"

definition token_bucket_init :: "real \<Rightarrow> int \<Rightarrow> error + token_bucket" where
  "token_bucket_init rate cap = Inr \<lparr>refill_rate = rate, capacity = cap, buckets = Map.empty\<rparr>"

text \<open>
  Lines 87 and 88: \<^verbatim>\<open>elapsed = now - last_time\<close> and
  \<^verbatim>\<open>tokens = min(self.capacity, tokens + elapsed * self.refill_rate)\<close>.
\<close>

definition tb_refill :: "token_bucket \<Rightarrow> real \<Rightarrow> real \<Rightarrow> real \<Rightarrow> real" where
  "tb_refill s tokens last_time now =
     (let elapsed = now - last_time
      in min (real_of_int (capacity s)) (tokens + elapsed * refill_rate s))"

definition tb_allow :: "token_bucket \<Rightarrow> key \<Rightarrow> real \<Rightarrow> bool \<times> token_bucket" where
  "tb_allow s k now =
     (let (tokens0, last_time) =
            (case buckets s k of None \<Rightarrow> (real_of_int (capacity s), now) | Some v \<Rightarrow> v);
          tokens = tb_refill s tokens0 last_time now
      in if 1 \<le> tokens
         then (True, s\<lparr>buckets := (buckets s)(k \<mapsto> (tokens - 1, now))\<rparr>)
         else (False, s\<lparr>buckets := (buckets s)(k \<mapsto> (tokens, now))\<rparr>))"

subsection \<open>The strategy interface and its callers\<close>

datatype strategy =
  FixedWindowCounterStrategy fixed_window_counter
| SlidingWindowLogStrategy sliding_window_log
| TokenBucketStrategy token_bucket

definition allow :: "strategy \<Rightarrow> key \<Rightarrow> real \<Rightarrow> error + bool \<times> strategy" where
  "allow st k now =
     (case st of
        FixedWindowCounterStrategy s \<Rightarrow>
          (case fw_allow s k now of
             Inl e \<Rightarrow> Inl e
           | Inr (d, s') \<Rightarrow> Inr (d, FixedWindowCounterStrategy s'))
      | SlidingWindowLogStrategy s \<Rightarrow>
          (case sl_allow s k now of (d, s') \<Rightarrow> Inr (d, SlidingWindowLogStrategy s'))
      | TokenBucketStrategy s \<Rightarrow>
          (case tb_allow s k now of (d, s') \<Rightarrow> Inr (d, TokenBucketStrategy s')))"

text \<open>\<^verbatim>\<open>RateLimiter.allow_request\<close> delegates to the strategy it was built with.\<close>

record rate_limiter =
  strategy :: strategy

definition allow_request :: "rate_limiter \<Rightarrow> key \<Rightarrow> real \<Rightarrow> error + bool \<times> rate_limiter" where
  "allow_request r k now =
     (case allow (strategy r) k now of
        Inl e \<Rightarrow> Inl e
      | Inr (d, st) \<Rightarrow> Inr (d, r\<lparr>strategy := st\<rparr>))"

text \<open>
  A caller that issues a sequence of calls, each with its key and the clock reading the call
  sees. A call that raises changes nothing (the only raise stands before every assignment),
  and the caller goes on with the next call.
\<close>

fun run :: "strategy \<Rightarrow> (key \<times> real) list \<Rightarrow> (error + bool) list \<times> strategy" where
  "run st [] = ([], st)"
| "run st ((k, now) # calls) =
     (case allow st k now of
        Inl e \<Rightarrow> (case run st calls of (ds, st') \<Rightarrow> (Inl e # ds, st'))
      | Inr (d, st1) \<Rightarrow> (case run st1 calls of (ds, st') \<Rightarrow> (Inr d # ds, st')))"

text \<open>What a strategy holds for one key, and the strategy without its per-key state.\<close>

datatype entry =
  FixedWindowEntry int int
| SlidingWindowEntry "real list"
| TokenBucketEntry real real

definition key_state :: "strategy \<Rightarrow> key \<Rightarrow> entry option" where
  "key_state st k =
     (case st of
        FixedWindowCounterStrategy s \<Rightarrow>
          map_option (\<lambda>(count, last_window). FixedWindowEntry count last_window) (store s k)
      | SlidingWindowLogStrategy s \<Rightarrow> map_option SlidingWindowEntry (logs s k)
      | TokenBucketStrategy s \<Rightarrow>
          map_option (\<lambda>(tokens, last_time). TokenBucketEntry tokens last_time) (buckets s k))"

definition configuration :: "strategy \<Rightarrow> strategy" where
  "configuration st =
     (case st of
        FixedWindowCounterStrategy s \<Rightarrow> FixedWindowCounterStrategy (s\<lparr>store := Map.empty\<rparr>)
      | SlidingWindowLogStrategy s \<Rightarrow> SlidingWindowLogStrategy (s\<lparr>logs := Map.empty\<rparr>)
      | TokenBucketStrategy s \<Rightarrow> TokenBucketStrategy (s\<lparr>buckets := Map.empty\<rparr>))"

text \<open>
  The timestamps of the admitted calls, from the decisions \<open>ds\<close> of a sequence of calls and the
  clock readings \<open>ts\<close> of those calls.
\<close>

definition admitted :: "(error + bool) list \<Rightarrow> real list \<Rightarrow> real list" where
  "admitted ds ts = map snd (filter (\<lambda>(d, t). d = Inr True) (zip ds ts))"

text \<open>
  The outcome of one call and the strategy after it (unchanged when the call raises), and the
  outcomes of the calls for one key among the outcomes \<open>ds\<close> of a sequence of calls.
\<close>

definition decision :: "strategy \<Rightarrow> key \<Rightarrow> real \<Rightarrow> error + bool" where
  "decision st k now = (case allow st k now of Inl e \<Rightarrow> Inl e | Inr (d, st') \<Rightarrow> Inr d)"

definition state_after :: "strategy \<Rightarrow> key \<Rightarrow> real \<Rightarrow> strategy" where
  "state_after st k now = (case allow st k now of Inl e \<Rightarrow> st | Inr (d, st') \<Rightarrow> st')"

definition decisions_for :: "key \<Rightarrow> (key \<times> real) list \<Rightarrow> (error + bool) list \<Rightarrow> (error + bool) list" where
  "decisions_for a calls ds = map snd (filter (\<lambda>(c, d). fst c = a) (zip calls ds))"

text \<open>
  Calls from several threads. \<^verbatim>\<open>allow\<close> takes no lock, so a thread can be suspended between
  the read of the key's entry (lines 28 to 31, \<open>fw_read\<close>, whose results are the locals
  \<^verbatim>\<open>window_start\<close>, \<^verbatim>\<open>count\<close> and \<^verbatim>\<open>last_window\<close>) and the branches that write it (lines 33 to
  42, \<open>fw_write\<close>, on the store as it is then). Thread \<open>i\<close> makes the call \<open>calls ! i\<close>; a
  schedule is a list of thread numbers, and each occurrence of \<open>i\<close> runs the next of the two
  steps of thread \<open>i\<close>. In a serial schedule each call's write follows its read at once.
\<close>

datatype phase = NotStarted | HasRead int int int | Returned bool | Raised error

definition fw_read :: "fixed_window_counter \<Rightarrow> key \<Rightarrow> real \<Rightarrow> error + int \<times> int \<times> int" where
  "fw_read s k now =
     (if fw_window_size s = 0 then Inl ZeroDivisionError
      else
        let window_start = fw_window_start s now;
            (count, last_window) =
               (case store s k of None \<Rightarrow> (0, window_start) | Some v \<Rightarrow> v)
        in Inr (window_start, count, last_window))"

definition fw_write ::
  "fixed_window_counter \<Rightarrow> key \<Rightarrow> int \<Rightarrow> int \<Rightarrow> int \<Rightarrow> bool \<times> fixed_window_counter" where
  "fw_write s k window_start count last_window =
     (if last_window \<noteq> window_start
      then (True, s\<lparr>store := (store s)(k \<mapsto> (1, window_start))\<rparr>)
      else if count < fw_max_requests s
      then (True, s\<lparr>store := (store s)(k \<mapsto> (count + 1, window_start))\<rparr>)
      else (False, s))"

definition thread_step ::
  "(key \<times> real) list \<Rightarrow> fixed_window_counter \<times> phase list \<Rightarrow> nat
     \<Rightarrow> fixed_window_counter \<times> phase list" where
  "thread_step calls c i =
     (case c of (s, ps) \<Rightarrow>
        if i < length calls \<and> i < length ps then
          (case ps ! i of
             NotStarted \<Rightarrow>
               (case fw_read s (fst (calls ! i)) (snd (calls ! i)) of
                  Inl e \<Rightarrow> (s, ps[i := Raised e])
                | Inr (window_start, count, last_window) \<Rightarrow>
                    (s, ps[i := HasRead window_start count last_window]))
           | HasRead window_start count last_window \<Rightarrow>
               (case fw_write s (fst (calls ! i)) window_start count last_window of
                  (d, s') \<Rightarrow> (s', ps[i := Returned d]))
           | Returned d \<Rightarrow> (s, ps)
           | Raised e \<Rightarrow> (s, ps))
        else (s, ps))"

definition interleave ::
  "fixed_window_counter \<Rightarrow> (key \<times> real) list \<Rightarrow> nat list
     \<Rightarrow> fixed_window_counter \<times> phase list" where
  "interleave s calls schedule =
     foldl (thread_step calls) (s, replicate (length calls) NotStarted) schedule"

definition serial :: "nat list \<Rightarrow> nat list" where
  "serial order = concat (map (\<lambda>i. [i, i]) order)"

section \<open>Running a sequence of calls\<close>

lemma fst_run_Cons:
  "fst (run st ((k, now) # calls)) =
     (case allow st k now of
        Inl e \<Rightarrow> Inl e # fst (run st calls)
      | Inr (d, st1) \<Rightarrow> Inr d # fst (run st1 calls))"
  by (simp split: sum.splits prod.splits)

lemma snd_run_Cons:
  "snd (run st ((k, now) # calls)) =
     (case allow st k now of
        Inl e \<Rightarrow> snd (run st calls)
      | Inr (d, st1) \<Rightarrow> snd (run st1 calls))"
  by (simp split: sum.splits prod.splits)

lemma run_append:
  "run st (cs @ cs') =
     (case run st cs of (ds, st1) \<Rightarrow> case run st1 cs' of (ds', st2) \<Rightarrow> (ds @ ds', st2))"
proof (induction cs arbitrary: st)
  case Nil
  then show ?case by simp
next
  case (Cons c cs)
  obtain k now where c: "c = (k, now)" by (cases c)
  show ?case
    unfolding c by (simp add: Cons.IH split: sum.splits prod.splits)
qed

lemma fst_run_append:
  "fst (run st (cs @ cs')) = fst (run st cs) @ fst (run (snd (run st cs)) cs')"
  by (simp add: run_append split: prod.splits)

lemma snd_run_append:
  "snd (run st (cs @ cs')) = snd (run (snd (run st cs)) cs')"
  by (simp add: run_append split: prod.splits)

lemma length_fst_run: "length (fst (run st cs)) = length cs"
proof (induction cs arbitrary: st)
  case Nil
  then show ?case by simp
next
  case (Cons c cs)
  obtain k now where c: "c = (k, now)" by (cases c)
  show ?case
    unfolding c by (simp add: Cons.IH fst_run_Cons split: sum.splits prod.splits del: run.simps(2))
qed

section \<open>Token bucket: the scenario of the demo configuration\<close>

text \<open>
  Claim C3. A token bucket built with refill rate 1 and capacity 5 has no bucket for any key.
  Five calls for one key at one clock reading \<open>t\<close> are all admitted, a sixth call at \<open>t\<close> is
  denied, and a following call at \<open>t + 1\<close> is admitted. (Clock readings and token counts are
  reals here; the rounding of floating-point clock readings is not modelled.)
\<close>

theorem token_bucket_demo_scenario:
  "token_bucket_init 1 5 = Inr \<lparr>refill_rate = 1, capacity = 5, buckets = Map.empty\<rparr> \<and>
   fst (run (TokenBucketStrategy \<lparr>refill_rate = 1, capacity = 5, buckets = Map.empty\<rparr>)
         (map (Pair k) [t, t, t, t, t, t, t + 1]))
     = [Inr True, Inr True, Inr True, Inr True, Inr True, Inr False, Inr True]"
  by (simp add: token_bucket_init_def allow_def tb_allow_def tb_refill_def)

section \<open>Fixed window counter: one window, and a change of window\<close>

lemma fw_window_start_store [simp]:
  "fw_window_start (s\<lparr>store := m\<rparr>) now = fw_window_start s now"
  by (simp add: fw_window_start_def)

lemma fw_allow_reset:
  "fw_window_size s \<noteq> 0 \<Longrightarrow> store s k = Some (c, lw) \<Longrightarrow> lw \<noteq> fw_window_start s now \<Longrightarrow>
   fw_allow s k now = Inr (True, s\<lparr>store := (store s)(k \<mapsto> (1, fw_window_start s now))\<rparr>)"
  by (simp add: fw_allow_def)

lemma fw_allow_same:
  "fw_window_size s \<noteq> 0 \<Longrightarrow> store s k = Some (c, fw_window_start s now) \<Longrightarrow>
   fw_allow s k now =
     (if c < fw_max_requests s
      then Inr (True, s\<lparr>store := (store s)(k \<mapsto> (c + 1, fw_window_start s now))\<rparr>)
      else Inr (False, s))"
  by (simp add: fw_allow_def)

lemma fw_allow_fresh:
  "fw_window_size s \<noteq> 0 \<Longrightarrow> store s k = None \<Longrightarrow>
   fw_allow s k now =
     (if 0 < fw_max_requests s
      then Inr (True, s\<lparr>store := (store s)(k \<mapsto> (1, fw_window_start s now))\<rparr>)
      else Inr (False, s))"
  by (simp add: fw_allow_def)

lemma fw_run_same_window:
  "fw_window_size s \<noteq> 0 \<Longrightarrow> store s k = Some (c, w) \<Longrightarrow>
   \<forall>t\<in>set ts. fw_window_start s t = w \<Longrightarrow>
   fst (run (FixedWindowCounterStrategy s) (map (Pair k) ts))
     = map (\<lambda>i. Inr (c + int i < fw_max_requests s)) [0..<length ts]"
proof (induction ts arbitrary: s c)
  case Nil
  then show ?case by simp
next
  case (Cons t ts)
  have w: "fw_window_start s t = w" using Cons.prems by simp
  have tail: "map (\<lambda>i. Inr (c + int i < fw_max_requests s)) [0..<length (t # ts)]
      = Inr (c < fw_max_requests s)
        # map (\<lambda>i. (Inr (c + 1 + int i < fw_max_requests s) :: error + bool)) [0..<length ts]"
    by (simp add: map_upt_Suc del: upt_Suc) (simp add: add.commute add.left_commute)
  show ?case
  proof (cases "c < fw_max_requests s")
    case True
    let ?s1 = "s\<lparr>store := (store s)(k \<mapsto> (c + 1, w))\<rparr>"
    have step: "fw_allow s k t = Inr (True, ?s1)"
      using fw_allow_same [of s k c t] Cons.prems w True by simp
    have ih: "fst (run (FixedWindowCounterStrategy ?s1) (map (Pair k) ts))
        = map (\<lambda>i. Inr (c + 1 + int i < fw_max_requests ?s1)) [0..<length ts]"
      using Cons.prems Cons.IH [of ?s1 "c + 1"] by simp
    show ?thesis
      unfolding tail using step ih True
      by (simp add: fst_run_Cons allow_def del: run.simps(2))
  next
    case False
    have step: "fw_allow s k t = Inr (False, s)"
      using fw_allow_same [of s k c t] Cons.prems w False by simp
    have ih: "fst (run (FixedWindowCounterStrategy s) (map (Pair k) ts))
        = map (\<lambda>i. Inr (c + int i < fw_max_requests s)) [0..<length ts]"
      using Cons.prems Cons.IH [of s c] by simp
    show ?thesis
      unfolding tail using step ih False
      by (simp add: fst_run_Cons allow_def del: run.simps(2))
  qed
qed

text \<open>The first call of a window: the key is unknown, or what is stored is of another window.\<close>

lemma fw_allow_window_entry:
  assumes "fw_window_size s \<noteq> 0" and "0 < fw_max_requests s"
    and "store s k = None \<or> (\<exists>c lw. store s k = Some (c, lw) \<and> lw \<noteq> fw_window_start s now)"
  shows "fw_allow s k now
     = Inr (True, s\<lparr>store := (store s)(k \<mapsto> (1, fw_window_start s now))\<rparr>)"
  using assms fw_allow_fresh [of s k now] fw_allow_reset [of s k _ _ now] by auto

lemma upto_max_decisions:
  "0 < n \<Longrightarrow>
   map (\<lambda>i. (Inr (1 + int i < n) :: error + bool)) [0..<nat n]
     = replicate (nat n - 1) (Inr True) @ [Inr False]"
  by (rule nth_equalityI) (auto simp: nth_append)

text \<open>
  Claim C2. With a maximum of \<open>N \<ge> 1\<close> requests and a non-zero window size, take \<open>N + 1\<close>
  calls for one key whose clock readings all lie in the aligned window \<open>w\<close>, the first of
  them being the key's first call of that window (the key is unknown, or its stored window is
  another one): the first \<open>N\<close> calls return true and the last one returns false.
\<close>

theorem fixed_window_admits_exactly_max_requests:
  assumes "fw_window_size s \<noteq> 0" and "0 < fw_max_requests s"
    and "length ts = Suc (nat (fw_max_requests s))"
    and "\<forall>t\<in>set ts. fw_window_start s t = w"
    and "store s k = None \<or> (\<exists>c lw. store s k = Some (c, lw) \<and> lw \<noteq> w)"
  shows "fst (run (FixedWindowCounterStrategy s) (map (Pair k) ts))
     = replicate (nat (fw_max_requests s)) (Inr True) @ [Inr False]"
proof -
  obtain t ts' where ts: "ts = t # ts'" and len: "length ts' = nat (fw_max_requests s)"
    using assms(3) by (cases ts) auto
  have w: "fw_window_start s t = w" and ws: "\<forall>t\<in>set ts'. fw_window_start s t = w"
    using assms(4) ts by simp_all
  let ?s1 = "s\<lparr>store := (store s)(k \<mapsto> (1, w))\<rparr>"
  have first: "fw_allow s k t = Inr (True, ?s1)"
    using fw_allow_window_entry [of s k t] assms(1,2,5) w by simp
  have rest: "fst (run (FixedWindowCounterStrategy ?s1) (map (Pair k) ts'))
      = map (\<lambda>i. Inr (1 + int i < fw_max_requests ?s1)) [0..<length ts']"
    using assms(1) ws fw_run_same_window [of ?s1 k 1 w ts'] by simp
  have "fst (run (FixedWindowCounterStrategy s) (map (Pair k) ts))
      = Inr True # map (\<lambda>i. Inr (1 + int i < fw_max_requests s)) [0..<nat (fw_max_requests s)]"
    using first rest len ts by (simp add: fst_run_Cons allow_def del: run.simps(2))
  also have "\<dots> = Inr True # replicate (nat (fw_max_requests s) - 1) (Inr True) @ [Inr False]"
    using upto_max_decisions [OF assms(2)] by simp
  also have "\<dots> = replicate (nat (fw_max_requests s)) (Inr True) @ [Inr False]"
    using assms(2) by (cases "nat (fw_max_requests s)") simp_all
  finally show ?thesis .
qed

theorem fixed_window_admits_exactly_max_requests_witness:
  "fst (run (FixedWindowCounterStrategy
               \<lparr>fw_window_size = 10, fw_max_requests = 2, store = Map.empty\<rparr>)
            (map (Pair ''alice'') [21, 25, 29]))
     = [Inr True, Inr True, Inr False]"
  using fixed_window_admits_exactly_max_requests
    [of "\<lparr>fw_window_size = 10, fw_max_requests = 2, store = Map.empty\<rparr>" "[21, 25, 29]" 20 "''alice''"]
  by (simp add: fw_window_start_def py_int_def numeral_2_eq_2)

text \<open>
  Claim C9. When the window stored for a key differs from the window of the clock reading,
  whether later or earlier, the call stores the count 1 with the new window and returns true.
  So when a key's window \<open>last_window\<close> is left by one call (a clock that moved backward
  across the boundary, say), that call and the following calls back in \<open>last_window\<close>, up to
  the maximum number of requests, are all admitted, whatever count was stored before.
\<close>

theorem fixed_window_reset_on_window_change:
  assumes "fw_window_size s \<noteq> 0" and "store s k = Some (c, last_window)"
    and "last_window \<noteq> fw_window_start s now"
    and "\<forall>t\<in>set ts. fw_window_start s t = last_window"
    and "int (length ts) \<le> fw_max_requests s"
  shows "fw_allow s k now
       = Inr (True, s\<lparr>store := (store s)(k \<mapsto> (1, fw_window_start s now))\<rparr>)
     \<and> fst (run (FixedWindowCounterStrategy s) (map (Pair k) (now # ts)))
       = replicate (Suc (length ts)) (Inr True)"
proof
  let ?s1 = "s\<lparr>store := (store s)(k \<mapsto> (1, fw_window_start s now))\<rparr>"
  show first: "fw_allow s k now = Inr (True, ?s1)"
    using assms(1-3) by (rule fw_allow_reset)
  show "fst (run (FixedWindowCounterStrategy s) (map (Pair k) (now # ts)))
               = replicate (Suc (length ts)) (Inr True)"
  proof (cases ts)
    case Nil
    then show ?thesis using first by (simp add: fst_run_Cons allow_def del: run.simps(2))
  next
    case (Cons t ts')
    have tw: "fw_window_start s t = last_window"
      and ws: "\<forall>t\<in>set ts'. fw_window_start s t = last_window"
      using assms(4) Cons by simp_all
    let ?s2 = "?s1\<lparr>store := (store ?s1)(k \<mapsto> (1, last_window))\<rparr>"
    have second: "fw_allow ?s1 k t = Inr (True, ?s2)"
      using fw_allow_reset [of ?s1 k 1 "fw_window_start s now" t] assms(1,3) tw by simp
    have rest: "fst (run (FixedWindowCounterStrategy ?s2) (map (Pair k) ts'))
        = map (\<lambda>i. Inr (1 + int i < fw_max_requests ?s2)) [0..<length ts']"
      using assms(1) ws fw_run_same_window [of ?s2 k 1 last_window ts'] by simp
    have all: "map (\<lambda>i. (Inr (1 + int i < fw_max_requests s) :: error + bool)) [0..<length ts']
        = replicate (length ts') (Inr True)"
      using assms(5) Cons by (intro nth_equalityI) auto
    show ?thesis
      using first second rest all Cons by (simp add: fst_run_Cons allow_def del: run.simps(2))
  qed
qed

theorem fixed_window_reset_on_window_change_witness:
  "fw_allow \<lparr>fw_window_size = 10, fw_max_requests = 2, store = [''alice'' \<mapsto> (2, 20)]\<rparr> ''alice'' 19
     = Inr (True, \<lparr>fw_window_size = 10, fw_max_requests = 2, store = [''alice'' \<mapsto> (1, 10)]\<rparr>)
   \<and> fst (run (FixedWindowCounterStrategy
               \<lparr>fw_window_size = 10, fw_max_requests = 2, store = [''alice'' \<mapsto> (2, 20)]\<rparr>)
            (map (Pair ''alice'') [19, 21, 22]))
     = [Inr True, Inr True, Inr True]"
  using fixed_window_reset_on_window_change
    [of "\<lparr>fw_window_size = 10, fw_max_requests = 2, store = [''alice'' \<mapsto> (2, 20)]\<rparr>"
        "''alice''" 2 20 19 "[21, 22]"]
  by (simp add: fw_window_start_def py_int_def numeral_2_eq_2)

section \<open>Sliding window log: the bound on every window\<close>

lemma popleft_while_sorted:
  "sorted xs \<Longrightarrow> popleft_while w xs = filter (\<lambda>t. w \<le> t) xs"
proof (induction xs)
  case Nil
  then show ?case by simp
next
  case (Cons x xs)
  show ?case
  proof (cases "x < w")
    case True
    then show ?thesis using Cons by simp
  next
    case False
    then have "\<forall>t\<in>set (x # xs). w \<le> t" using Cons.prems by auto
    then have "filter (\<lambda>t. w \<le> t) (x # xs) = x # xs" by (simp only: filter_True)
    then show ?thesis using False by simp
  qed
qed

lemma admitted_Nil [simp]: "admitted [] [] = []"
  by (simp add: admitted_def)

lemma admitted_append:
  "length ds = length ts \<Longrightarrow>
   admitted (ds @ ds') (ts @ ts') = admitted ds ts @ admitted ds' ts'"
  by (simp add: admitted_def)

lemma admitted_one: "admitted [Inr d] [t] = (if d then [t] else [])"
  by (simp add: admitted_def)

lemma set_admitted: "set (admitted ds ts) \<subseteq> set ts"
  by (auto simp: admitted_def dest: set_zip_rightD)

lemma sorted_admitted:
  assumes "sorted ts" and "length ds = length ts"
  shows "sorted (admitted ds ts)"
proof -
  have "sorted (map snd (zip ds ts))" using assms by simp
  then show ?thesis unfolding admitted_def by (rule sorted_filter)
qed


lemma sl_allow_step:
  "sl_allow s k now =
     (let klog = popleft_while (now - real_of_int (sl_window_size s))
                   (case logs s k of None \<Rightarrow> [] | Some l \<Rightarrow> l)
      in (int (length klog) < sl_max_requests s,
          s\<lparr>logs := (logs s)(k \<mapsto> (if int (length klog) < sl_max_requests s
                                      then klog @ [now] else klog))\<rparr>))"
  by (simp add: sl_allow_def Let_def)

lemma sl_run_invariant:
  assumes "0 \<le> sl_window_size s" and "0 \<le> sl_max_requests s" and "logs s k = None"
    and "sorted ts"
  shows "\<exists>s'. snd (run (SlidingWindowLogStrategy s) (map (Pair k) ts)) = SlidingWindowLogStrategy s'
      \<and> sl_window_size s' = sl_window_size s \<and> sl_max_requests s' = sl_max_requests s
      \<and> (case logs s' k of None \<Rightarrow> [] | Some l \<Rightarrow> l)
          = filter (\<lambda>x. last ts - real_of_int (sl_window_size s) \<le> x)
              (admitted (fst (run (SlidingWindowLogStrategy s) (map (Pair k) ts))) ts)
      \<and> int (length (filter (\<lambda>x. last ts - real_of_int (sl_window_size s) \<le> x)
              (admitted (fst (run (SlidingWindowLogStrategy s) (map (Pair k) ts))) ts)))
          \<le> sl_max_requests s"
  using assms(4)
proof (induction ts rule: rev_induct)
  case Nil
  then show ?case using assms(2,3) by simp
next
  case (snoc t ts)
  define W where "W = real_of_int (sl_window_size s)"
  define N where "N = sl_max_requests s"
  define ds0 where "ds0 = fst (run (SlidingWindowLogStrategy s) (map (Pair k) ts))"
  define A0 where "A0 = admitted ds0 ts"
  define F0 where "F0 = filter (\<lambda>x. last ts - W \<le> x) A0"
  define P where "P = popleft_while (t - W) F0"
  define d where "d = (int (length P) < N)"
  have W0: "0 \<le> W" using assms(1) by (simp add: W_def)
  have sorted_ts: "sorted ts" and le_t: "\<forall>x\<in>set ts. x \<le> t"
    using snoc.prems by (simp_all add: sorted_append)
  have len0: "length ds0 = length ts" by (simp add: ds0_def length_fst_run)
  from snoc.IH [OF sorted_ts] obtain s' where
    st: "snd (run (SlidingWindowLogStrategy s) (map (Pair k) ts)) = SlidingWindowLogStrategy s'"
    and cfg: "sl_window_size s' = sl_window_size s" "sl_max_requests s' = sl_max_requests s"
    and lg: "(case logs s' k of None \<Rightarrow> [] | Some l \<Rightarrow> l) = F0"
    and bound0: "int (length F0) \<le> N"
    unfolding F0_def A0_def ds0_def W_def N_def by blast
  have "sorted A0" unfolding A0_def using sorted_ts len0 by (rule sorted_admitted)
  then have "sorted F0" unfolding F0_def by (rule sorted_wrt_filter)
  then have P1: "P = filter (\<lambda>x. t - W \<le> x) F0"
    unfolding P_def by (rule popleft_while_sorted)
  have inA0: "\<And>x. x \<in> set A0 \<Longrightarrow> last ts \<le> t"
  proof -
    fix x assume "x \<in> set A0"
    then have "x \<in> set ts" using set_admitted [of ds0 ts] by (auto simp: A0_def)
    then have "ts \<noteq> []" by auto
    then have "last ts \<in> set ts" by simp
    then show "last ts \<le> t" using le_t by blast
  qed
  have P2: "P = filter (\<lambda>x. t - W \<le> x) A0"
    unfolding P1 F0_def filter_filter
    by (rule filter_cong [OF refl]) (use inA0 in fastforce)
  have lenP: "int (length P) \<le> N"
  proof -
    have "length P \<le> length F0" unfolding P1 by (rule length_filter_le)
    then show ?thesis using bound0 by simp
  qed
  have step: "sl_allow s' k t
      = (d, s'\<lparr>logs := (logs s')(k \<mapsto> (if d then P @ [t] else P))\<rparr>)"
    unfolding sl_allow_step by (simp add: cfg lg P_def d_def W_def N_def Let_def)
  let ?s'' = "s'\<lparr>logs := (logs s')(k \<mapsto> (if d then P @ [t] else P))\<rparr>"
  have run_fst: "fst (run (SlidingWindowLogStrategy s) (map (Pair k) (ts @ [t]))) = ds0 @ [Inr d]"
    using st step
    by (simp add: fst_run_append fst_run_Cons allow_def ds0_def del: run.simps(2))
  have run_snd: "snd (run (SlidingWindowLogStrategy s) (map (Pair k) (ts @ [t])))
      = SlidingWindowLogStrategy ?s''"
    using st step
    by (simp add: snd_run_append snd_run_Cons allow_def del: run.simps(2))
  have adm: "admitted (ds0 @ [Inr d]) (ts @ [t]) = A0 @ (if d then [t] else [])"
    using len0 by (simp add: admitted_append admitted_one A0_def)
  have flt: "filter (\<lambda>x. last (ts @ [t]) - W \<le> x) (admitted (ds0 @ [Inr d]) (ts @ [t]))
      = (if d then P @ [t] else P)"
    using W0 by (simp add: adm P2)
  have bound: "int (length (if d then P @ [t] else P)) \<le> N"
    using lenP by (simp add: d_def)
  show ?case
    unfolding run_fst run_snd
    using flt bound cfg by (intro exI [of _ ?s'']) (simp add: W_def N_def)
qed


lemma length_filter_mono:
  "(\<And>x. x \<in> set xs \<Longrightarrow> P x \<Longrightarrow> Q x) \<Longrightarrow> length (filter P xs) \<le> length (filter Q xs)"
  by (induction xs) auto

lemma sl_prefix_count:
  assumes "0 \<le> sl_window_size s" and "0 \<le> sl_max_requests s" and "logs s k = None"
    and "sorted ts" and "i < length ts"
  shows "int (length (filter (\<lambda>x. ts ! i - real_of_int (sl_window_size s) \<le> x)
            (admitted (take (Suc i) (fst (run (SlidingWindowLogStrategy s) (map (Pair k) ts))))
               (take (Suc i) ts))))
       \<le> sl_max_requests s"
proof -
  let ?pre = "take (Suc i) ts"
  have sorted_pre: "sorted ?pre" using assms(4) by (rule sorted_wrt_take)
  have last_pre: "last ?pre = ts ! i"
    using assms(5) by (simp add: take_Suc_conv_app_nth)
  have "map (Pair k) ts = map (Pair k) ?pre @ map (Pair k) (drop (Suc i) ts)"
    by (simp flip: map_append)
  then have "take (Suc i) (fst (run (SlidingWindowLogStrategy s) (map (Pair k) ts)))
      = fst (run (SlidingWindowLogStrategy s) (map (Pair k) ?pre))"
    using assms(5) by (simp add: fst_run_append length_fst_run)
  then show ?thesis
    using sl_run_invariant [OF assms(1-3) sorted_pre] last_pre by auto
qed

lemma sl_any_window:
  assumes "0 \<le> sl_window_size s" and "0 \<le> sl_max_requests s" and "logs s k = None"
    and "sorted ts"
  shows "int (length (filter (\<lambda>x. T - real_of_int (sl_window_size s) \<le> x \<and> x \<le> T)
            (admitted (fst (run (SlidingWindowLogStrategy s) (map (Pair k) ts))) ts)))
       \<le> sl_max_requests s"
proof -
  define W where "W = real_of_int (sl_window_size s)"
  define ds where "ds = fst (run (SlidingWindowLogStrategy s) (map (Pair k) ts))"
  define n where "n = length (takeWhile (\<lambda>x. x \<le> T) ts)"
  let ?Q = "\<lambda>x. T - W \<le> x \<and> x \<le> T"
  have len: "length ds = length ts" by (simp add: ds_def length_fst_run)
  have tk: "take n ts = takeWhile (\<lambda>x. x \<le> T) ts"
    unfolding n_def by (rule takeWhile_eq_take [symmetric])
  have dr: "drop n ts = dropWhile (\<lambda>x. x \<le> T) ts"
    unfolding n_def by (rule dropWhile_eq_drop [symmetric])
  have early: "\<forall>x\<in>set (take n ts). x \<le> T"
    unfolding tk by (auto dest: set_takeWhileD)
  have late: "\<forall>x\<in>set (drop n ts). T < x"
  proof (cases "drop n ts")
    case Nil
    then show ?thesis by simp
  next
    case (Cons y ys)
    have "\<not> y \<le> T" using Cons dr by (simp add: dropWhile_eq_Cons_conv)
    moreover have "sorted (drop n ts)" using assms(4) by (rule sorted_wrt_drop)
    ultimately show ?thesis using Cons by fastforce
  qed
  have split: "admitted ds ts = admitted (take n ds) (take n ts) @ admitted (drop n ds) (drop n ts)"
    using admitted_append [of "take n ds" "take n ts" "drop n ds" "drop n ts"] len by simp
  have "filter ?Q (admitted (drop n ds) (drop n ts)) = []"
    using late set_admitted [of "drop n ds" "drop n ts"]
    unfolding filter_empty_conv by fastforce
  then have eq: "filter ?Q (admitted ds ts) = filter ?Q (admitted (take n ds) (take n ts))"
    by (simp add: split)
  show ?thesis
  proof (cases n)
    case 0
    then show ?thesis using assms(2) eq by (simp add: W_def ds_def)
  next
    case (Suc j)
    have j: "j < length ts" using Suc n_def length_takeWhile_le [of "\<lambda>x. x \<le> T" ts] by simp
    have "ts ! j \<in> set (take n ts)" using Suc j by (auto simp: in_set_conv_nth)
    then have jT: "ts ! j \<le> T" using early by blast
    have "length (filter ?Q (admitted (take n ds) (take n ts)))
        \<le> length (filter (\<lambda>x. ts ! j - W \<le> x) (admitted (take n ds) (take n ts)))"
      using jT by (intro length_filter_mono) simp
    also have "int \<dots> \<le> sl_max_requests s"
      using sl_prefix_count [OF assms j] by (simp add: Suc ds_def W_def)
    finally show ?thesis using eq by (simp add: W_def ds_def)
  qed
qed

text \<open>
  Claim C1. A sliding window log with positive window size and a maximum of \<open>N \<ge> 0\<close>
  requests, with no log yet for the key, receives calls for that key at non-decreasing clock
  readings \<open>ts\<close>. For every call \<open>i\<close>, the admitted calls of the sequence whose timestamps lie
  in the closed window of length window size that ends at the reading of call \<open>i\<close> are at most
  \<open>N\<close>. The window is any interval of that length (lemma \<open>sl_any_window\<close>), so the bound does
  not depend on how the calls are aligned.
\<close>

theorem sliding_window_never_exceeds_max:
  assumes "0 < sl_window_size s" and "0 \<le> sl_max_requests s" and "logs s k = None"
    and "sorted ts" and "i < length ts"
  shows "int (length (filter (\<lambda>t. ts ! i - real_of_int (sl_window_size s) \<le> t \<and> t \<le> ts ! i)
            (admitted (fst (run (SlidingWindowLogStrategy s) (map (Pair k) ts))) ts)))
       \<le> sl_max_requests s"
  using sl_any_window [of s k ts "ts ! i"] assms by simp

theorem sliding_window_never_exceeds_max_witness:
  "fst (run (SlidingWindowLogStrategy
               \<lparr>sl_window_size = 10, sl_max_requests = 2, logs = Map.empty\<rparr>)
            (map (Pair ''alice'') [1, 9, 10, 11, 12]))
     = [Inr True, Inr True, Inr False, Inr False, Inr True]
   \<and> int (length (filter (\<lambda>t. [1, 9, 10, 11, 12] ! 3 - real_of_int 10 \<le> t \<and> t \<le> [1, 9, 10, 11, 12] ! 3)
            (admitted (fst (run (SlidingWindowLogStrategy
               \<lparr>sl_window_size = 10, sl_max_requests = 2, logs = Map.empty\<rparr>)
            (map (Pair ''alice'') [1, 9, 10, 11, 12]))) [1, 9, 10, 11, 12])))
       \<le> 2"
proof
  show "fst (run (SlidingWindowLogStrategy
               \<lparr>sl_window_size = 10, sl_max_requests = 2, logs = Map.empty\<rparr>)
            (map (Pair ''alice'') [1, 9, 10, 11, 12]))
     = [Inr True, Inr True, Inr False, Inr False, Inr True]"
    by (simp add: allow_def sl_allow_def)
  show "int (length (filter (\<lambda>t. [1, 9, 10, 11, 12] ! 3 - real_of_int 10 \<le> t \<and> t \<le> [1, 9, 10, 11, 12] ! 3)
            (admitted (fst (run (SlidingWindowLogStrategy
               \<lparr>sl_window_size = 10, sl_max_requests = 2, logs = Map.empty\<rparr>)
            (map (Pair ''alice'') [1, 9, 10, 11, 12]))) [1, 9, 10, 11, 12])))
       \<le> 2"
    using sliding_window_never_exceeds_max
      [of "\<lparr>sl_window_size = 10, sl_max_requests = 2, logs = Map.empty\<rparr>" "''alice''"
          "[1, 9, 10, 11, 12]" 3]
    by simp
qed

section \<open>A call reads and writes the state of its key only\<close>

lemma run_Cons_decision:
  "run st ((k, now) # calls) =
     (decision st k now # fst (run (state_after st k now) calls),
      snd (run (state_after st k now) calls))"
  by (simp add: decision_def state_after_def split: sum.splits prod.splits)

lemma key_state_fw [simp]:
  "key_state (FixedWindowCounterStrategy s1) k = key_state (FixedWindowCounterStrategy s2) k'
     \<longleftrightarrow> store s1 k = store s2 k'"
  by (cases "store s1 k"; cases "store s2 k'") (auto simp: key_state_def)

lemma key_state_sl [simp]:
  "key_state (SlidingWindowLogStrategy s1) k = key_state (SlidingWindowLogStrategy s2) k'
     \<longleftrightarrow> logs s1 k = logs s2 k'"
  by (cases "logs s1 k"; cases "logs s2 k'") (auto simp: key_state_def)

lemma key_state_tb [simp]:
  "key_state (TokenBucketStrategy s1) k = key_state (TokenBucketStrategy s2) k'
     \<longleftrightarrow> buckets s1 k = buckets s2 k'"
  by (cases "buckets s1 k"; cases "buckets s2 k'") (auto simp: key_state_def)

lemma fw_same_configuration:
  "(s1 :: fixed_window_counter)\<lparr>store := Map.empty\<rparr> = s2\<lparr>store := Map.empty\<rparr> \<longleftrightarrow>
     fw_window_size s1 = fw_window_size s2 \<and> fw_max_requests s1 = fw_max_requests s2"
  by (cases s1; cases s2) simp

lemma sl_same_configuration:
  "(s1 :: sliding_window_log)\<lparr>logs := Map.empty\<rparr> = s2\<lparr>logs := Map.empty\<rparr> \<longleftrightarrow>
     sl_window_size s1 = sl_window_size s2 \<and> sl_max_requests s1 = sl_max_requests s2"
  by (cases s1; cases s2) simp

lemma tb_same_configuration:
  "(s1 :: token_bucket)\<lparr>buckets := Map.empty\<rparr> = s2\<lparr>buckets := Map.empty\<rparr> \<longleftrightarrow>
     refill_rate s1 = refill_rate s2 \<and> capacity s1 = capacity s2"
  by (cases s1; cases s2) simp

lemma configuration_fw [simp]:
  "configuration (FixedWindowCounterStrategy s1) = configuration st2 \<longleftrightarrow>
     (\<exists>s2. st2 = FixedWindowCounterStrategy s2 \<and> fw_window_size s1 = fw_window_size s2
        \<and> fw_max_requests s1 = fw_max_requests s2)"
  by (cases st2)
    (auto simp: configuration_def fw_same_configuration sl_same_configuration
       tb_same_configuration)

lemma configuration_sl [simp]:
  "configuration (SlidingWindowLogStrategy s1) = configuration st2 \<longleftrightarrow>
     (\<exists>s2. st2 = SlidingWindowLogStrategy s2 \<and> sl_window_size s1 = sl_window_size s2
        \<and> sl_max_requests s1 = sl_max_requests s2)"
  by (cases st2)
    (auto simp: configuration_def fw_same_configuration sl_same_configuration
       tb_same_configuration)

lemma configuration_tb [simp]:
  "configuration (TokenBucketStrategy s1) = configuration st2 \<longleftrightarrow>
     (\<exists>s2. st2 = TokenBucketStrategy s2 \<and> refill_rate s1 = refill_rate s2
        \<and> capacity s1 = capacity s2)"
  by (cases st2)
    (auto simp: configuration_def fw_same_configuration sl_same_configuration
       tb_same_configuration)

lemma state_after_fw:
  "state_after (FixedWindowCounterStrategy s) k now =
     FixedWindowCounterStrategy (case fw_allow s k now of Inl e \<Rightarrow> s | Inr (d, s') \<Rightarrow> s')"
  by (simp add: state_after_def allow_def split: sum.splits prod.splits)

lemma state_after_sl:
  "state_after (SlidingWindowLogStrategy s) k now = SlidingWindowLogStrategy (snd (sl_allow s k now))"
  by (simp add: state_after_def allow_def split: prod.splits)

lemma state_after_tb:
  "state_after (TokenBucketStrategy s) k now = TokenBucketStrategy (snd (tb_allow s k now))"
  by (simp add: state_after_def allow_def split: prod.splits)

lemma decision_fw:
  "decision (FixedWindowCounterStrategy s) k now =
     (case fw_allow s k now of Inl e \<Rightarrow> Inl e | Inr (d, s') \<Rightarrow> Inr d)"
  by (simp add: decision_def allow_def split: sum.splits prod.splits)

lemma decision_sl:
  "decision (SlidingWindowLogStrategy s) k now = Inr (fst (sl_allow s k now))"
  by (simp add: decision_def allow_def split: prod.splits)

lemma decision_tb:
  "decision (TokenBucketStrategy s) k now = Inr (fst (tb_allow s k now))"
  by (simp add: decision_def allow_def split: prod.splits)

lemma state_after_configuration:
  "configuration (state_after st k now) = configuration st"
proof (cases st)
  case (FixedWindowCounterStrategy s)
  then show ?thesis
    by (auto simp: state_after_fw fw_allow_def Let_def split: prod.splits option.splits)
next
  case (SlidingWindowLogStrategy s)
  then show ?thesis by (simp add: state_after_sl sl_allow_def Let_def)
next
  case (TokenBucketStrategy s)
  then show ?thesis
    by (simp add: state_after_tb tb_allow_def Let_def split: prod.splits option.splits)
qed

lemma state_after_other_key:
  assumes "k' \<noteq> k"
  shows "key_state (state_after st k now) k' = key_state st k'"
proof (cases st)
  case (FixedWindowCounterStrategy s)
  then show ?thesis using assms
    by (auto simp: state_after_fw fw_allow_def Let_def split: prod.splits option.splits)
next
  case (SlidingWindowLogStrategy s)
  then show ?thesis using assms by (simp add: state_after_sl sl_allow_def Let_def)
next
  case (TokenBucketStrategy s)
  then show ?thesis using assms
    by (simp add: state_after_tb tb_allow_def Let_def split: prod.splits option.splits)
qed

lemma decision_local:
  assumes "configuration st1 = configuration st2" and "key_state st1 k = key_state st2 k"
  shows "decision st1 k now = decision st2 k now"
proof (cases st1)
  case (FixedWindowCounterStrategy s)
  then show ?thesis using assms
    by (auto simp: decision_fw fw_allow_def fw_window_start_def Let_def
             split: prod.splits option.splits)
next
  case (SlidingWindowLogStrategy s)
  then show ?thesis using assms by (auto simp: decision_sl sl_allow_def Let_def)
next
  case (TokenBucketStrategy s)
  then show ?thesis using assms
    by (auto simp: decision_tb tb_allow_def tb_refill_def Let_def split: prod.splits option.splits)
qed

lemma state_after_local:
  assumes "configuration st1 = configuration st2" and "key_state st1 k = key_state st2 k"
  shows "key_state (state_after st1 k now) k = key_state (state_after st2 k now) k"
proof (cases st1)
  case (FixedWindowCounterStrategy s)
  then show ?thesis using assms
    by (auto simp: state_after_fw fw_allow_def fw_window_start_def Let_def
             split: prod.splits option.splits)
next
  case (SlidingWindowLogStrategy s)
  then show ?thesis using assms by (auto simp: state_after_sl sl_allow_def Let_def)
next
  case (TokenBucketStrategy s)
  then show ?thesis using assms
    by (auto simp: state_after_tb tb_allow_def tb_refill_def Let_def
             split: prod.splits option.splits)
qed


text \<open>
  Claim C10. A call is a function of the strategy's configuration, the state stored for the
  key, the key and the clock reading: two strategies with the same configuration and the same
  state for the key \<open>k\<close> (two equal strategies in particular) give, at the same clock reading,
  the same decision for \<open>k\<close> and the same resulting state for \<open>k\<close>; the configuration and the
  state of every other key are what they were before the call.
\<close>

theorem allow_depends_on_key_state_only:
  assumes "configuration st1 = configuration st2" and "key_state st1 k = key_state st2 k"
  shows "decision st1 k now = decision st2 k now
     \<and> key_state (state_after st1 k now) k = key_state (state_after st2 k now) k
     \<and> configuration (state_after st1 k now) = configuration (state_after st2 k now)
     \<and> (\<forall>k'. k' \<noteq> k \<longrightarrow> key_state (state_after st1 k now) k' = key_state st1 k')"
proof (intro conjI allI impI)
  show "decision st1 k now = decision st2 k now"
    using assms by (rule decision_local)
  show "key_state (state_after st1 k now) k = key_state (state_after st2 k now) k"
    using assms by (rule state_after_local)
  show "configuration (state_after st1 k now) = configuration (state_after st2 k now)"
    unfolding state_after_configuration by (rule assms(1))
  fix k' assume "k' \<noteq> k"
  then show "key_state (state_after st1 k now) k' = key_state st1 k'"
    by (rule state_after_other_key)
qed

theorem allow_depends_on_key_state_only_witness:
  "decision (TokenBucketStrategy \<lparr>refill_rate = 1, capacity = 5,
        buckets = [''alice'' \<mapsto> (1, 10), ''bob'' \<mapsto> (0, 3)]\<rparr>) ''alice'' 10
     = decision (TokenBucketStrategy \<lparr>refill_rate = 1, capacity = 5,
        buckets = [''alice'' \<mapsto> (1, 10)]\<rparr>) ''alice'' 10
   \<and> key_state (state_after (TokenBucketStrategy \<lparr>refill_rate = 1, capacity = 5,
        buckets = [''alice'' \<mapsto> (1, 10), ''bob'' \<mapsto> (0, 3)]\<rparr>) ''alice'' 10) ''alice''
     = Some (TokenBucketEntry 0 10)"
proof -
  let ?st1 = "TokenBucketStrategy \<lparr>refill_rate = 1, capacity = 5,
        buckets = [''alice'' \<mapsto> (1, 10), ''bob'' \<mapsto> (0, 3)]\<rparr>"
  let ?st2 = "TokenBucketStrategy \<lparr>refill_rate = 1, capacity = 5,
        buckets = [''alice'' \<mapsto> (1, 10)]\<rparr>"
  have c: "configuration ?st1 = configuration ?st2" by simp
  have ks: "key_state ?st1 ''alice'' = key_state ?st2 ''alice''" by simp
  have after: "key_state (state_after ?st2 ''alice'' 10) ''alice'' = Some (TokenBucketEntry 0 10)"
    by (simp add: state_after_tb tb_allow_def tb_refill_def key_state_def)
  from allow_depends_on_key_state_only [OF c ks, of 10] after show ?thesis by simp
qed

lemma decisions_for_Nil [simp]: "decisions_for a [] ds = []"
  by (simp add: decisions_for_def)

lemma decisions_for_Cons [simp]:
  "decisions_for a (c # calls) (d # ds)
     = (if fst c = a then d # decisions_for a calls ds else decisions_for a calls ds)"
  by (simp add: decisions_for_def)

lemma run_without_other_key:
  assumes "a \<noteq> b"
    and "configuration st1 = configuration st2" and "key_state st1 a = key_state st2 a"
  shows "decisions_for a calls (fst (run st1 calls))
       = decisions_for a (filter (\<lambda>c. fst c \<noteq> b) calls)
           (fst (run st2 (filter (\<lambda>c. fst c \<noteq> b) calls)))
     \<and> key_state (snd (run st1 calls)) a
       = key_state (snd (run st2 (filter (\<lambda>c. fst c \<noteq> b) calls))) a"
  using assms(2,3)
proof (induction calls arbitrary: st1 st2)
  case Nil
  then show ?case by simp
next
  case (Cons c calls)
  obtain k now where c: "c = (k, now)" by (cases c)
  let ?rest = "filter (\<lambda>c. fst c \<noteq> b) calls"
  let ?st1' = "state_after st1 k now"
  let ?st2' = "state_after st2 k now"
  have left: "run st1 ((k, now) # calls)
      = (decision st1 k now # fst (run ?st1' calls), snd (run ?st1' calls))"
    by (rule run_Cons_decision)
  have cfg1: "configuration ?st1' = configuration st2"
    using Cons.prems(1) by (simp only: state_after_configuration)
  show ?case
  proof (cases "k = b")
    case True
    have ka: "k \<noteq> a" using True assms(1) by simp
    have "key_state ?st1' a = key_state st1 a"
      using ka [symmetric] by (rule state_after_other_key)
    also have "\<dots> = key_state st2 a" by (rule Cons.prems(2))
    finally have ks: "key_state ?st1' a = key_state st2 a" .
    have flt: "filter (\<lambda>c. fst c \<noteq> b) (c # calls) = ?rest"
      unfolding c using True by simp
    have dl: "decisions_for a (c # calls) (fst (run st1 (c # calls)))
        = decisions_for a calls (fst (run ?st1' calls))"
      unfolding c left using ka by simp
    have sl: "snd (run st1 (c # calls)) = snd (run ?st1' calls)"
      unfolding c left by simp
    show ?thesis
      unfolding flt dl sl by (rule Cons.IH [OF cfg1 ks])
  next
    case False
    have right: "run st2 ((k, now) # ?rest)
        = (decision st2 k now # fst (run ?st2' ?rest), snd (run ?st2' ?rest))"
      by (rule run_Cons_decision)
    have flt: "filter (\<lambda>c. fst c \<noteq> b) (c # calls) = (k, now) # ?rest"
      unfolding c using False by simp
    have cfg: "configuration ?st1' = configuration ?st2'"
      using Cons.prems(1) by (simp only: state_after_configuration)
    have ks: "key_state ?st1' a = key_state ?st2' a"
    proof (cases "k = a")
      case True
      show ?thesis
        unfolding True [symmetric] using Cons.prems True by (intro state_after_local) simp_all
    next
      case False
      then have ak: "a \<noteq> k" by simp
      have "key_state ?st1' a = key_state st1 a"
        using ak by (rule state_after_other_key)
      also have "\<dots> = key_state st2 a" by (rule Cons.prems(2))
      also have "\<dots> = key_state ?st2' a"
        using ak by (rule state_after_other_key [symmetric])
      finally show ?thesis .
    qed
    note ih = Cons.IH [OF cfg ks]
    have sl: "snd (run st1 (c # calls)) = snd (run ?st1' calls)"
      unfolding c left by simp
    have sr: "snd (run st2 ((k, now) # ?rest)) = snd (run ?st2' ?rest)"
      unfolding right by simp
    have dl: "decisions_for a (c # calls) (fst (run st1 (c # calls)))
        = decisions_for a ((k, now) # ?rest) (fst (run st2 ((k, now) # ?rest)))"
    proof (cases "k = a")
      case True
      have "decision st1 k now = decision st2 k now"
        using Cons.prems True by (intro decision_local) simp_all
      then show ?thesis
        unfolding c left right using True ih by simp
    next
      case False
      then show ?thesis
        unfolding c left right using ih by simp
    qed
    show ?thesis
      unfolding flt sl sr using dl ih by (simp only: flt simp_thms)
  qed
qed

text \<open>
  Claim C7. For distinct keys \<open>a\<close> and \<open>b\<close>, any strategy and any sequence of calls: the
  decisions of the calls for \<open>a\<close>, and the state stored for \<open>a\<close> at the end, are the same
  when all calls for \<open>b\<close> are removed from the sequence.
\<close>

theorem cross_key_independence:
  assumes "a \<noteq> b"
  shows "decisions_for a calls (fst (run st calls))
       = decisions_for a (filter (\<lambda>c. fst c \<noteq> b) calls)
           (fst (run st (filter (\<lambda>c. fst c \<noteq> b) calls)))
     \<and> key_state (snd (run st calls)) a
       = key_state (snd (run st (filter (\<lambda>c. fst c \<noteq> b) calls))) a"
  by (rule run_without_other_key [OF assms refl refl])

theorem cross_key_independence_witness:
  "decisions_for ''alice'' [(''alice'', 1), (''bob'', 2), (''alice'', 3), (''bob'', 4), (''alice'', 5)]
      (fst (run (FixedWindowCounterStrategy
                   \<lparr>fw_window_size = 10, fw_max_requests = 2, store = Map.empty\<rparr>)
              [(''alice'', 1), (''bob'', 2), (''alice'', 3), (''bob'', 4), (''alice'', 5)]))
     = fst (run (FixedWindowCounterStrategy
                   \<lparr>fw_window_size = 10, fw_max_requests = 2, store = Map.empty\<rparr>)
              [(''alice'', 1), (''alice'', 3), (''alice'', 5)])"
  using cross_key_independence
    [of "''alice''" "''bob''"
        "[(''alice'', 1), (''bob'', 2), (''alice'', 3), (''bob'', 4), (''alice'', 5)]"
        "FixedWindowCounterStrategy \<lparr>fw_window_size = 10, fw_max_requests = 2, store = Map.empty\<rparr>"]
  by (simp add: allow_def fw_allow_def fw_window_start_def py_int_def)

section \<open>A denied call, repeated\<close>

lemma fw_deny_unchanged:
  "fw_allow s k now = Inr (False, s') \<Longrightarrow> s' = s"
  by (cases "store s k")
    (auto simp: fw_allow_def Let_def split: if_splits prod.splits)

lemma popleft_while_idem:
  "popleft_while w (popleft_while w xs) = popleft_while w xs"
  by (induction xs) simp_all

lemma sl_deny_fixed:
  assumes "sl_allow s k now = (False, s')"
  shows "sl_allow s' k now = (False, s')"
proof -
  define P where "P = popleft_while (now - real_of_int (sl_window_size s))
                        (case logs s k of None \<Rightarrow> [] | Some l \<Rightarrow> l)"
  have full: "\<not> int (length P) < sl_max_requests s"
    and s': "s' = s\<lparr>logs := (logs s)(k \<mapsto> P)\<rparr>"
    using assms unfolding sl_allow_step P_def by (simp_all add: Let_def split: if_splits)
  have again: "popleft_while (now - real_of_int (sl_window_size s')) 
                 (case logs s' k of None \<Rightarrow> [] | Some l \<Rightarrow> l) = P"
    unfolding s' by (simp add: P_def popleft_while_idem)
  show ?thesis
    unfolding sl_allow_step again using full by (simp add: s')
qed

lemma tb_deny_fixed:
  assumes "tb_allow s k now = (False, s')"
  shows "tb_allow s' k now = (False, s')"
proof -
  obtain tokens0 last_time where
    v: "(case buckets s k of None \<Rightarrow> (real_of_int (capacity s), now) | Some v \<Rightarrow> v)
          = (tokens0, last_time)"
    by (cases "case buckets s k of None \<Rightarrow> (real_of_int (capacity s), now) | Some v \<Rightarrow> v")
  define tokens where "tokens = tb_refill s tokens0 last_time now"
  have low: "\<not> 1 \<le> tokens" and s': "s' = s\<lparr>buckets := (buckets s)(k \<mapsto> (tokens, now))\<rparr>"
    using assms unfolding tb_allow_def v tokens_def by (simp_all add: Let_def split: if_splits)
  have cap: "tokens \<le> real_of_int (capacity s)"
    by (simp add: tokens_def tb_refill_def)
  have again: "tb_refill s' tokens now now = tokens"
    using cap by (simp add: s' tb_refill_def)
  show ?thesis
    unfolding tb_allow_def using low again by (simp add: s')
qed

text \<open>
  Claim C6. For every strategy, key and state: when a call returns false, the same call
  repeated at once (same key, same clock reading) returns false again, and leaves the state
  as the first call left it. For the fixed window counter the denied call changes nothing at
  all. (The sliding window log stores its pruned log and the token bucket its refilled count
  and the clock reading on the denying path; repeating the call stores the same values.)
\<close>

theorem denial_is_idempotent:
  assumes "allow st k now = Inr (False, st')"
  shows "allow st' k now = Inr (False, st')
     \<and> (\<forall>s. st = FixedWindowCounterStrategy s \<longrightarrow> st' = st)"
proof (cases st)
  case (FixedWindowCounterStrategy s)
  then obtain s' where a: "fw_allow s k now = Inr (False, s')"
    and st': "st' = FixedWindowCounterStrategy s'"
    using assms by (auto simp: allow_def split: sum.splits prod.splits)
  have "s' = s" using a by (rule fw_deny_unchanged)
  then show ?thesis using assms FixedWindowCounterStrategy st' by simp
next
  case (SlidingWindowLogStrategy s)
  then obtain s' where a: "sl_allow s k now = (False, s')"
    and st': "st' = SlidingWindowLogStrategy s'"
    using assms by (auto simp: allow_def split: prod.splits)
  have "sl_allow s' k now = (False, s')" using a by (rule sl_deny_fixed)
  then show ?thesis using SlidingWindowLogStrategy st' by (simp add: allow_def)
next
  case (TokenBucketStrategy s)
  then obtain s' where a: "tb_allow s k now = (False, s')"
    and st': "st' = TokenBucketStrategy s'"
    using assms by (auto simp: allow_def split: prod.splits)
  have "tb_allow s' k now = (False, s')" using a by (rule tb_deny_fixed)
  then show ?thesis using TokenBucketStrategy st' by (simp add: allow_def)
qed

theorem denial_is_idempotent_witness:
  "allow (TokenBucketStrategy \<lparr>refill_rate = 1, capacity = 5,
            buckets = [''alice'' \<mapsto> (0, 10)]\<rparr>) ''alice'' (21 / 2)
     = Inr (False, TokenBucketStrategy \<lparr>refill_rate = 1, capacity = 5,
            buckets = [''alice'' \<mapsto> (1 / 2, 21 / 2)]\<rparr>)
   \<and> allow (TokenBucketStrategy \<lparr>refill_rate = 1, capacity = 5,
            buckets = [''alice'' \<mapsto> (1 / 2, 21 / 2)]\<rparr>) ''alice'' (21 / 2)
     = Inr (False, TokenBucketStrategy \<lparr>refill_rate = 1, capacity = 5,
            buckets = [''alice'' \<mapsto> (1 / 2, 21 / 2)]\<rparr>)"
proof -
  let ?st = "TokenBucketStrategy \<lparr>refill_rate = 1, capacity = 5,
            buckets = [''alice'' \<mapsto> (0, 10)]\<rparr>"
  let ?st' = "TokenBucketStrategy \<lparr>refill_rate = 1, capacity = 5,
            buckets = [''alice'' \<mapsto> (1 / 2, 21 / 2)]\<rparr>"
  have first: "allow ?st ''alice'' (21 / 2) = Inr (False, ?st')"
    by (simp add: allow_def tb_allow_def tb_refill_def)
  from denial_is_idempotent [OF first] have "allow ?st' ''alice'' (21 / 2) = Inr (False, ?st')"
    by (rule conjunct1)
  with first show ?thesis by (rule conjI)
qed

section \<open>A clock that moves backward\<close>







section \<open>Construction\<close>

text \<open>
  Claim C5 as stated fails: a window size of 0 with 0 requests, a negative window size, and a
  negative refill rate with capacity 0 are all accepted by the constructors.
\<close>

theorem construction_counterexample:
  "\<not> isl (fixed_window_counter_init 0 0)
   \<and> \<not> isl (sliding_window_log_init (- 1) (- 1))
   \<and> \<not> isl (token_bucket_init (- 1) 0)"
  by (simp add: fixed_window_counter_init_def sliding_window_log_init_def token_bucket_init_def)

text \<open>
  Claim C5, amended. Construction never fails: each constructor stores its arguments
  unchecked, with an empty dictionary, for every configuration, the valid ones (refill rate 0
  among them) and the invalid ones alike. A window size of 0 shows up at the calls only: every
  call of a fixed window counter built with it raises \<open>ZeroDivisionError\<close>.
\<close>

theorem construction_never_fails:
  "fixed_window_counter_init window_size max_requests
     = Inr \<lparr>fw_window_size = window_size, fw_max_requests = max_requests, store = Map.empty\<rparr>
   \<and> sliding_window_log_init window_size max_requests
     = Inr \<lparr>sl_window_size = window_size, sl_max_requests = max_requests, logs = Map.empty\<rparr>
   \<and> token_bucket_init rate cap
     = Inr \<lparr>refill_rate = rate, capacity = cap, buckets = Map.empty\<rparr>
   \<and> fw_allow \<lparr>fw_window_size = 0, fw_max_requests = max_requests, store = m\<rparr> k now
     = Inl ZeroDivisionError"
  by (simp add: fixed_window_counter_init_def sliding_window_log_init_def token_bucket_init_def
      fw_allow_def)

section \<open>Concurrent calls on the fixed window counter\<close>

lemma fw_allow_read_write:
  "fw_allow s k now =
     (case fw_read s k now of
        Inl e \<Rightarrow> Inl e
      | Inr (window_start, count, last_window) \<Rightarrow>
          Inr (fw_write s k window_start count last_window))"
  by (simp add: fw_allow_def fw_read_def fw_write_def Let_def split: prod.splits)

text \<open>
  Claim C8 as stated fails: with a maximum of 1 request, two threads calling for the same key
  in one window, scheduled read, read, write, write, are both admitted; both have read the
  count 0, and the store ends with the count 1.
\<close>

theorem concurrent_double_admission:
  "interleave \<lparr>fw_window_size = 10, fw_max_requests = 1, store = Map.empty\<rparr>
      [(''alice'', 21), (''alice'', 22)] [0, 1, 0, 1]
     = (\<lparr>fw_window_size = 10, fw_max_requests = 1, store = [''alice'' \<mapsto> (1, 20)]\<rparr>,
        [Returned True, Returned True])"
  by (simp add: interleave_def thread_step_def fw_read_def fw_write_def fw_window_start_def
      py_int_def)

lemma thread_step_length:
  "length (snd (thread_step calls (s, ps) i)) = length ps"
  by (simp add: thread_step_def split: phase.splits sum.splits prod.splits)

lemma thread_step_other:
  "j \<noteq> i \<Longrightarrow> snd (thread_step calls (s, ps) i) ! j = ps ! j"
  by (simp add: thread_step_def split: phase.splits sum.splits prod.splits)

lemma foldl_thread_step_length:
  "length (snd (foldl (thread_step calls) c sched)) = length (snd c)"
proof (induction sched arbitrary: c)
  case Nil
  then show ?case by simp
next
  case (Cons i sched)
  obtain s ps where c: "c = (s, ps)" by (cases c)
  show ?case by (simp add: Cons.IH c thread_step_length)
qed

lemma foldl_thread_step_other:
  "j \<notin> set sched \<Longrightarrow> snd (foldl (thread_step calls) c sched) ! j = snd c ! j"
proof (induction sched arbitrary: c)
  case Nil
  then show ?case by simp
next
  case (Cons i sched)
  obtain s ps where c: "c = (s, ps)" by (cases c)
  have "j \<noteq> i" and "j \<notin> set sched" using Cons.prems by auto
  then show ?case by (simp add: Cons.IH c thread_step_other)
qed

text \<open>A call whose two steps run with nothing in between is the sequential call.\<close>

lemma thread_step_twice:
  assumes "i < length calls" and "i < length ps" and "ps ! i = NotStarted"
    and "fw_window_size s \<noteq> 0"
  shows "thread_step calls (thread_step calls (s, ps) i) i =
     (case fw_allow s (fst (calls ! i)) (snd (calls ! i)) of
        Inl e \<Rightarrow> (s, ps[i := Raised e])
      | Inr (d, s') \<Rightarrow> (s', ps[i := Returned d]))"
proof -
  let ?k = "fst (calls ! i)" and ?now = "snd (calls ! i)"
  obtain c lw where v:
    "(case store s ?k of None \<Rightarrow> (0, fw_window_start s ?now) | Some v \<Rightarrow> v) = (c, lw)"
    by (cases "case store s ?k of None \<Rightarrow> (0, fw_window_start s ?now) | Some v \<Rightarrow> v")
  define w where "w = fw_window_start s ?now"
  have r: "fw_read s ?k ?now = Inr (w, c, lw)"
    using assms(4) v by (simp add: fw_read_def Let_def w_def)
  obtain d s' where wr: "fw_write s ?k w c lw = (d, s')"
    by (cases "fw_write s ?k w c lw")
  have first: "thread_step calls (s, ps) i = (s, ps[i := HasRead w c lw])"
    using assms(1-3) r by (simp add: thread_step_def)
  have second: "thread_step calls (s, ps[i := HasRead w c lw]) i = (s', ps[i := Returned d])"
    using assms(1,2) wr by (simp add: thread_step_def)
  have "fw_allow s ?k ?now = Inr (d, s')"
    by (simp add: fw_allow_read_write r wr)
  then show ?thesis by (simp add: first second)
qed


lemma fw_allow_count:
  assumes "fw_window_size s \<noteq> 0" and "fw_window_start s now = w"
    and "(store s k = None \<and> c = 0) \<or> store s k = Some (c, w)"
  shows "fw_allow s k now =
     Inr (c < fw_max_requests s,
          if c < fw_max_requests s then s\<lparr>store := (store s)(k \<mapsto> (c + 1, w))\<rparr> else s)"
  using assms fw_allow_fresh [of s k now] fw_allow_same [of s k c now] by auto

lemma serial_Cons: "serial (i # order) = i # i # serial order"
  by (simp add: serial_def)

lemma set_serial: "set (serial order) = set order"
  by (auto simp: serial_def)

lemma serial_admits:
  assumes "fw_window_size s \<noteq> 0" and "length ps = length calls"
    and "\<forall>c\<in>set calls. fst c = k \<and> fw_window_start s (snd c) = w"
    and "distinct order" and "set order \<subseteq> {..<length calls}"
    and "\<forall>i\<in>set order. ps ! i = NotStarted"
    and "(store s k = None \<and> c = 0) \<or> store s k = Some (c, w)"
  shows "map (\<lambda>i. snd (foldl (thread_step calls) (s, ps) (serial order)) ! i) order
       = map (\<lambda>j. Returned (c + int j < fw_max_requests s)) [0..<length order]"
  using assms
proof (induction order arbitrary: s ps c)
  case Nil
  then show ?case by simp
next
  case (Cons i rest)
  let ?M = "fw_max_requests s"
  let ?d = "c < ?M"
  let ?s' = "if ?d then s\<lparr>store := (store s)(k \<mapsto> (c + 1, w))\<rparr> else s"
  let ?ps' = "ps[i := Returned ?d]"
  have i: "i < length calls" and i_ps: "i < length ps" and fresh: "ps ! i = NotStarted"
    using Cons.prems(2,5,6) by auto
  have call: "fst (calls ! i) = k" "fw_window_start s (snd (calls ! i)) = w"
    using Cons.prems(3) i by auto
  have allow: "fw_allow s (fst (calls ! i)) (snd (calls ! i)) = Inr (?d, ?s')"
    unfolding call(1) using Cons.prems(1) call(2) Cons.prems(7) by (rule fw_allow_count)
  have two: "thread_step calls (thread_step calls (s, ps) i) i = (?s', ?ps')"
    using thread_step_twice [OF i i_ps fresh Cons.prems(1)] allow by simp
  have fold: "foldl (thread_step calls) (s, ps) (serial (i # rest))
      = foldl (thread_step calls) (?s', ?ps') (serial rest)"
    by (simp only: serial_Cons foldl_Cons two)
  have notin: "i \<notin> set (serial rest)"
    using Cons.prems(4) by (simp add: set_serial)
  have head: "snd (foldl (thread_step calls) (?s', ?ps') (serial rest)) ! i = Returned ?d"
    using foldl_thread_step_other [OF notin, of calls "(?s', ?ps')"] i_ps by simp
  have rest_fresh: "\<forall>j\<in>set rest. ?ps' ! j = NotStarted"
  proof
    fix j assume j: "j \<in> set rest"
    then have "i \<noteq> j" using Cons.prems(4) by auto
    then have "?ps' ! j = ps ! j" by (rule nth_list_update_neq)
    then show "?ps' ! j = NotStarted" using j Cons.prems(6) by simp
  qed
  have win': "\<forall>c\<in>set calls. fst c = k \<and> fw_window_start ?s' (snd c) = w"
    using Cons.prems(3) by simp
  have tail: "map (\<lambda>i. snd (foldl (thread_step calls) (?s', ?ps') (serial rest)) ! i) rest
      = map (\<lambda>j. Returned (c + 1 + int j < ?M)) [0..<length rest]"
  proof (cases ?d)
    case True
    have st': "(store ?s' k = None \<and> c + 1 = 0) \<or> store ?s' k = Some (c + 1, w)"
      using True by simp
    have "map (\<lambda>i. snd (foldl (thread_step calls) (?s', ?ps') (serial rest)) ! i) rest
        = map (\<lambda>j. Returned (c + 1 + int j < fw_max_requests ?s')) [0..<length rest]"
      using Cons.prems(1,2,4,5) win' rest_fresh st'
      by (intro Cons.IH) simp_all
    then show ?thesis using True by simp
  next
    case False
    have st': "(store ?s' k = None \<and> c = 0) \<or> store ?s' k = Some (c, w)"
      using False Cons.prems(7) by simp
    have "map (\<lambda>i. snd (foldl (thread_step calls) (?s', ?ps') (serial rest)) ! i) rest
        = map (\<lambda>j. Returned (c + int j < fw_max_requests ?s')) [0..<length rest]"
      using Cons.prems(1,2,4,5) win' rest_fresh st'
      by (intro Cons.IH) simp_all
    also have "\<dots> = map (\<lambda>j. Returned (c + 1 + int j < ?M)) [0..<length rest]"
      using False by simp
    finally show ?thesis .
  qed
  have rhs: "map (\<lambda>j. Returned (c + int j < ?M)) [0..<length (i # rest)]
      = Returned ?d # map (\<lambda>j. Returned (c + 1 + int j < ?M)) [0..<length rest]"
    by (simp add: map_upt_Suc del: upt_Suc) (simp add: add.commute add.left_commute)
  show ?case
    unfolding fold rhs using head tail by simp
qed

text \<open>
  Claim C8, amended. The code does not serialise calls; the bound holds for the schedules that
  do. When the threads' calls are all for one key, in one window, on a fixed window counter
  with a non-zero window size and no entry for that key, and the threads of \<open>order\<close> run one
  after the other, each call's write directly after its read, then in that order the calls
  before the maximum number of requests is reached return true and all later ones return
  false: with \<open>N\<close> calls and a maximum of \<open>M\<close>, exactly \<open>M\<close> (or all \<open>N\<close>, if fewer) are
  admitted. Other interleavings can admit more, as the schedule above does.
\<close>

theorem serialised_calls_admit_max_requests:
  assumes "fw_window_size s \<noteq> 0" and "store s k = None"
    and "\<forall>c\<in>set calls. fst c = k \<and> fw_window_start s (snd c) = w"
    and "distinct order" and "set order \<subseteq> {..<length calls}"
  shows "map (\<lambda>i. snd (interleave s calls (serial order)) ! i) order
       = map (\<lambda>j. Returned (int j < fw_max_requests s)) [0..<length order]"
proof -
  have fresh: "\<forall>i\<in>set order. replicate (length calls) NotStarted ! i = NotStarted"
    using assms(5) by auto
  have st: "(store s k = None \<and> (0::int) = 0) \<or> store s k = Some (0, w)"
    using assms(2) by simp
  have "map (\<lambda>i. snd (foldl (thread_step calls) (s, replicate (length calls) NotStarted)
                           (serial order)) ! i) order
      = map (\<lambda>j. Returned (0 + int j < fw_max_requests s)) [0..<length order]"
    using assms(1) _ assms(3,4,5) fresh st by (rule serial_admits) simp
  then show ?thesis by (simp add: interleave_def)
qed

theorem serialised_calls_admit_max_requests_witness:
  "snd (interleave \<lparr>fw_window_size = 10, fw_max_requests = 1, store = Map.empty\<rparr>
      [(''alice'', 21), (''alice'', 22)] (serial [1, 0])) ! 1 = Returned True
   \<and> snd (interleave \<lparr>fw_window_size = 10, fw_max_requests = 1, store = Map.empty\<rparr>
      [(''alice'', 21), (''alice'', 22)] (serial [1, 0])) ! 0 = Returned False"
  using serialised_calls_admit_max_requests
    [of "\<lparr>fw_window_size = 10, fw_max_requests = 1, store = Map.empty\<rparr>" "''alice''"
        "[(''alice'', 21), (''alice'', 22)]" 20 "[1, 0]"]
  by (simp add: fw_window_start_def py_int_def)

end
